theory Spec2Isabelle
  imports Main
begin

section \<open>The rate limiter of brave-search-rate-limited.js\<close>

text \<open>
  The class \<open>RateLimiter\<close> (lines 15-63 of brave-search-rate-limited.js) has four
  fields. \<open>pending\<close> holds the \<open>resolve\<close> callbacks of the promises that
  \<open>throttle\<close> created; a callback is identified with the index of its promise in
  creation order. Times are \<open>Date.now()\<close> values, milliseconds as integers, and so is
  \<open>minDelay\<close>. The code computes on doubles, which are exact on integers below
  \<open>2^53\<close> in magnitude: there the model's subtractions and comparisons are the code's,
  and every statement below that gives a \<open>waitTime\<close> gives it at such values. The
  \<open>console.error\<close> of line 50 changes no state and is left out.
\<close>

record RateLimiter =
  minDelay :: int
  lastCallTime :: int
  pending :: "nat list"
  processing :: bool

text \<open>\<open>constructor(minDelayMs = 1000)\<close>, lines 16-21: the parameter defaults to 1000
  when it is not passed, and is stored as it is.\<close>

definition constructor :: "int option \<Rightarrow> RateLimiter" where
  "constructor minDelayMs =
     \<lparr> minDelay = (case minDelayMs of None \<Rightarrow> 1000 | Some d \<Rightarrow> d),
       lastCallTime = 0,
       pending = [],
       processing = False \<rparr>"

text \<open>
  What the class runs in. \<open>Date.now()\<close> is the environment's: its successive results over
  the life of the process are a sequence \<open>clk 0, clk 1, ...\<close>, and \<open>reads\<close> counts the
  calls made so far. \<open>parked\<close> holds the activations of \<open>processQueue\<close> that are
  suspended at the \<open>await\<close> of line 51, each with the \<open>resolve\<close> it took from the
  queue and the \<open>waitTime\<close> it passed to \<open>setTimeout\<close>.
  \<open>promises\<close> is the state of every promise \<open>throttle\<close> has created, and \<open>calls\<close>
  logs every invocation of a \<open>resolve\<close> callback (line 58) with the value written to
  \<open>lastCallTime\<close> just before it (line 55).
\<close>

type_synonym clock = "nat \<Rightarrow> int"

datatype promise = Pending | Fulfilled | Rejected

record runtime = RateLimiter +
  reads :: nat
  parked :: "(nat \<times> int) list"
  promises :: "promise list"
  calls :: "(nat \<times> int) list"

definition start :: "RateLimiter \<Rightarrow> runtime" where
  "start rl =
     \<lparr> minDelay = minDelay rl, lastCallTime = lastCallTime rl, pending = pending rl,
       processing = processing rl,
       reads = 0, parked = [], promises = [], calls = [] \<rparr>"

text \<open>Calling a promise's \<open>resolve\<close> fulfils it when it is still pending and does
  nothing otherwise.\<close>

definition resolve_promise :: "nat \<Rightarrow> promise list \<Rightarrow> promise list" where
  "resolve_promise i ps =
     (if i < length ps \<and> ps ! i = Pending then ps[i := Fulfilled] else ps)"

text \<open>Lines 54-58: \<open>this.lastCallTime = Date.now(); resolve();\<close>\<close>

definition release :: "clock \<Rightarrow> nat \<Rightarrow> runtime \<Rightarrow> runtime" where
  "release clk resolve w =
     w\<lparr> lastCallTime := clk (reads w),
        reads := Suc (reads w),
        promises := resolve_promise resolve (promises w),
        calls := calls w @ [(resolve, clk (reads w))] \<rparr>"

text \<open>
  The \<open>while\<close> loop of lines 41-61, from its test on, up to the point where the
  activation either suspends at line 51 or leaves the loop and clears \<open>processing\<close>.
\<close>

function drain :: "clock \<Rightarrow> runtime \<Rightarrow> runtime" where
  "drain clk w =
     (case pending w of
        [] \<Rightarrow> w\<lparr> processing := False \<rparr>
      | resolve # rest \<Rightarrow>
          (let now = clk (reads w);
               timeSinceLastCall = now - lastCallTime w
           in if timeSinceLastCall < minDelay w
              then (let waitTime = minDelay w - timeSinceLastCall
                    in w\<lparr> pending := rest, reads := Suc (reads w),
                          parked := parked w @ [(resolve, waitTime)] \<rparr>)
              else drain clk (release clk resolve
                     (w\<lparr> pending := rest, reads := Suc (reads w) \<rparr>))))"
  by pat_completeness auto

termination
  by (relation "measure (\<lambda>(clk, w). length (pending w))") (auto simp: release_def)

declare drain.simps [simp del]

text \<open>\<open>processQueue\<close>, lines 33-62, up to its first suspension.\<close>

definition processQueue :: "clock \<Rightarrow> runtime \<Rightarrow> runtime" where
  "processQueue clk w =
     (if processing w then w else drain clk (w\<lparr> processing := True \<rparr>))"

text \<open>\<open>throttle\<close>, lines 23-31: a new promise, its \<open>resolve\<close> pushed on the queue, and
  a call of \<open>processQueue\<close>.\<close>

definition throttle :: "clock \<Rightarrow> runtime \<Rightarrow> runtime" where
  "throttle clk w =
     processQueue clk
       (w\<lparr> pending := pending w @ [length (promises w)],
           promises := promises w @ [Pending] \<rparr>)"

text \<open>The timer of the \<open>i\<close>-th suspended activation fires: the activation goes on
  from line 55 with the \<open>resolve\<close> it holds, and then round the loop. Nothing on that
  path looks at the clock before line 55, so the step is the same whenever the
  environment runs the callback.\<close>

definition timer_fired :: "clock \<Rightarrow> nat \<Rightarrow> runtime \<Rightarrow> runtime" where
  "timer_fired clk i w =
     (if i < length (parked w)
      then drain clk (release clk (fst (parked w ! i))
             (w\<lparr> parked := take i (parked w) @ drop (Suc i) (parked w) \<rparr>))
      else w)"

text \<open>
  What happens to a limiter: a caller calls \<open>throttle()\<close>, or a timer set at line 51
  fires. Nothing else touches the object: the class has no other method.
\<close>

datatype event = Throttle | TimerFired nat

fun step :: "clock \<Rightarrow> runtime \<Rightarrow> event \<Rightarrow> runtime" where
  "step clk w Throttle = throttle clk w"
| "step clk w (TimerFired i) = timer_fired clk i w"

fun run :: "clock \<Rightarrow> runtime \<Rightarrow> event list \<Rightarrow> runtime" where
  "run clk w [] = w"
| "run clk w (e # es) = run clk (step clk w e) es"

text \<open>
  The one thing assumed of the environment, and only where a statement says so: the
  clock does not go backwards. Nothing is assumed of the moment a timer fires;
  \<open>TimerFired\<close> may come at any clock value.
\<close>

definition monotonic :: "clock \<Rightarrow> bool" where
  "monotonic clk = (\<forall>i j. i \<le> j \<longrightarrow> clk i \<le> clk j)"

section \<open>The tool handler\<close>

text \<open>
  The handler registered for \<open>CallToolRequestSchema\<close>, lines 115-190. A request carries
  \<open>params.name\<close> and \<open>params.arguments\<close>; the arguments may be missing, and \<open>count\<close>
  may be missing in them.
\<close>

record request =
  name :: string
  arguments :: "(string \<times> nat option) option"

datatype js_error = Error string | TypeError

text \<open>The server's limiter, lines 11 and 79.\<close>

definition RATE_LIMIT_MS :: int where
  "RATE_LIMIT_MS = 1500"

definition rateLimiter :: runtime where
  "rateLimiter = start (constructor (Some RATE_LIMIT_MS))"

text \<open>
  Where a call of the handler stands when it first gives up control: it has thrown
  (outside the \<open>try\<close>, so the call is rejected), or it is suspended at line 121 on the
  promise that \<open>throttle\<close> returned, holding \<open>query\<close> and \<open>count\<close>.
\<close>

datatype handler = Threw js_error | Awaits nat string nat

text \<open>Lines 116-121 and 189: the handler up to its \<open>await\<close>, on the limiter's state.\<close>

definition call_tool :: "clock \<Rightarrow> request \<Rightarrow> runtime \<Rightarrow> handler \<times> runtime" where
  "call_tool clk req w =
     (if name req = ''brave_search''
      then (case arguments req of
              None \<Rightarrow> (Threw TypeError, w)
            | Some (query, count) \<Rightarrow>
                (Awaits (length (promises w)) query (case count of None \<Rightarrow> 10 | Some c \<Rightarrow> c),
                 throttle clk w))
      else (Threw (Error (''Unknown tool: '' @ name req)), w))"

text \<open>A number in a template literal or under \<open>toString()\<close>: its decimal digits.
  That is what JavaScript prints for an integer below \<open>10^21\<close>, as an HTTP status is;
  from there on it prints an exponent, which \<open>show_nat\<close> does not follow.\<close>

definition digit :: "nat \<Rightarrow> char" where
  "digit d = ''0123456789'' ! d"

function show_nat :: "nat \<Rightarrow> string" where
  "show_nat n = (if n < 10 then [digit n] else show_nat (n div 10) @ [digit (n mod 10)])"
  by pat_completeness auto

termination
  by (relation "measure id") auto

declare show_nat.simps [simp del]

text \<open>
  Lines 123-135: once the awaited promise is fulfilled the handler builds the URL from
  \<open>query\<close> and \<open>count\<close> and calls \<open>fetch\<close>. An \<open>await\<close> does not go on before its
  promise is fulfilled, so until then there is no fetch.
\<close>

record search_call =
  q_param :: string
  count_param :: string

definition admitted_fetch :: "runtime \<Rightarrow> handler \<Rightarrow> search_call option" where
  "admitted_fetch w h =
     (case h of
        Threw e \<Rightarrow> None
      | Awaits p query count \<Rightarrow>
          (if p < length (promises w) \<and> promises w ! p = Fulfilled
           then Some \<lparr> q_param = query, count_param = show_nat count \<rparr>
           else None))"

text \<open>
  What \<open>fetch\<close> gives back: it rejects (a transport failure, with the error's message) or
  resolves to a response. \<open>body_text\<close> is what \<open>response.text()\<close> resolves to, if it does;
  \<open>body_json\<close> what \<open>response.json()\<close> resolves to, or the message of its rejection.
  Of the parsed data the handler uses its truthiness and its \<open>JSON.stringify\<close> rendering.
  \<open>response.ok\<close> is, by the Fetch standard, a status from 200 to 299.
\<close>

record js_value =
  truthy :: bool
  stringified :: string

record response =
  status :: nat
  statusText :: string
  body_text :: "string option"
  body_json :: "string + js_value"

datatype fetched = Rejects string | Responds response

definition ok :: "response \<Rightarrow> bool" where
  "ok r = (200 \<le> status r \<and> status r \<le> 299)"

record tool_result =
  content_text :: string
  isError :: bool

text \<open>Lines 137-174, inside the \<open>try\<close>: \<open>Inl\<close> is the message of an error thrown there.\<close>

definition try_body :: "fetched \<Rightarrow> string + tool_result" where
  "try_body f =
     (case f of
        Rejects msg \<Rightarrow> Inl msg
      | Responds r \<Rightarrow>
          if \<not> ok r
          then (if status r = 429
                then Inr \<lparr> content_text = ''Rate Limit reached! The Brave API currently does not allow any more requests. Please wait a moment and try again.'',
                           isError = True \<rparr>
                else (let errorText = (case body_text r of None \<Rightarrow> statusText r | Some t \<Rightarrow> t)
                      in Inl (''Brave API Error: '' @ show_nat (status r) @ '' - '' @ errorText)))
          else (case body_json r of
                  Inl msg \<Rightarrow> Inl msg
                | Inr data \<Rightarrow>
                    if \<not> truthy data
                    then Inl ''No data received from Brave API''
                    else Inr \<lparr> content_text = stringified data, isError = False \<rparr>))"

text \<open>Lines 175-186: the \<open>catch\<close>.\<close>

definition catch_block :: "string \<Rightarrow> tool_result" where
  "catch_block message = \<lparr> content_text = ''Search error: '' @ message, isError = True \<rparr>"

text \<open>The handler from line 123 on, given what \<open>fetch\<close> gave back: the result it returns,
  and the limiter's state, which it never touches.\<close>

definition after_admission :: "fetched \<Rightarrow> runtime \<Rightarrow> tool_result \<times> runtime" where
  "after_admission f w =
     ((case try_body f of Inl message \<Rightarrow> catch_block message | Inr result \<Rightarrow> result), w)"

text \<open>What happens to the server: a tool call arrives, or a timer of the limiter fires.\<close>

datatype server_event = CallTool request | Timer nat

fun server_step :: "clock \<Rightarrow> runtime \<Rightarrow> server_event \<Rightarrow> runtime" where
  "server_step clk w (CallTool req) = snd (call_tool clk req w)"
| "server_step clk w (Timer i) = timer_fired clk i w"

fun server_run :: "clock \<Rightarrow> runtime \<Rightarrow> server_event list \<Rightarrow> runtime" where
  "server_run clk w [] = w"
| "server_run clk w (e # es) = server_run clk (server_step clk w e) es"

section \<open>Predicates on the limiter's state\<close>

text \<open>The entries waiting to be released, in the order in which the loop will release
  them: the one a suspended activation holds, then the queue.\<close>

definition queued :: "runtime \<Rightarrow> nat list" where
  "queued w = map fst (parked w) @ pending w"

text \<open>Nothing is lost and nothing overtakes: the entries released so far, followed by the
  entries waiting, are the promises in creation order.\<close>

definition conserved :: "runtime \<Rightarrow> bool" where
  "conserved w = (map fst (calls w) @ queued w = [0..<length (promises w)])"

text \<open>At most one activation is suspended in the loop, \<open>processing\<close> says whether
  one is, and the queue is empty when none is.\<close>

definition single :: "runtime \<Rightarrow> bool" where
  "single w = (length (parked w) \<le> 1 \<and> processing w = (parked w \<noteq> []) \<and>
               (parked w = [] \<longrightarrow> pending w = []))"

text \<open>The promises released so far are fulfilled and the others are pending.\<close>

definition settled :: "runtime \<Rightarrow> bool" where
  "settled w =
     (promises w =
        map (\<lambda>i. if i < length (calls w) then Fulfilled else Pending) [0..<length (promises w)])"

text \<open>The release times are in order and none is after the next clock value.\<close>

definition ordered :: "clock \<Rightarrow> runtime \<Rightarrow> bool" where
  "ordered clk w =
     (sorted (map snd (calls w)) \<and>
      (\<forall>c \<in> set (calls w). snd c \<le> clk (reads w)))"

definition shaped :: "runtime \<Rightarrow> bool" where
  "shaped w = (single w \<and> conserved w \<and> settled w)"

text \<open>The entries a state accounts for: those still queued (in \<open>pending\<close>, or held by
  a suspended activation) and those whose \<open>resolve\<close> has been called. The entries that
  were queued in \<open>w\<close> and that \<open>w'\<close> does not account for are the ones an operation
  leading from \<open>w\<close> to \<open>w'\<close> would have withdrawn.\<close>

definition accounted :: "runtime \<Rightarrow> nat set" where
  "accounted w = set (queued w) \<union> fst ` set (calls w)"

definition withdrawn :: "runtime \<Rightarrow> runtime \<Rightarrow> nat set" where
  "withdrawn w w' = {r \<in> set (queued w). r \<notin> accounted w'}"

text \<open>\<open>lastCallTime\<close> is the time of the last release, if there has been one.\<close>

definition stamped :: "runtime \<Rightarrow> bool" where
  "stamped w = (calls w \<noteq> [] \<longrightarrow> lastCallTime w = snd (last (calls w)))"

text \<open>An idle limiter whose floor is zero or less and whose \<open>lastCallTime\<close> is not
  after the next clock value.\<close>

definition passing :: "clock \<Rightarrow> runtime \<Rightarrow> bool" where
  "passing clk w =
     (parked w = [] \<and> pending w = [] \<and> \<not> processing w \<and> minDelay w \<le> 0 \<and>
      lastCallTime w \<le> clk (reads w))"

section \<open>The spec's scenario: three requests at once, a floor of one second\<close>

text \<open>
  Section 8 of the spec: three requests submitted together to a limiter with
  \<open>minDelay = 1000\<close>. The clock stands at 5000 while they are submitted, at 6000 when
  the first timer fires and at 7000 when the second does.
\<close>

definition scenario_clock :: clock where
  "scenario_clock k = (if k < 3 then 5000 else if k < 5 then 6000 else 7000)"

definition scenario_events :: "event list" where
  "scenario_events = [Throttle, Throttle, Throttle, TimerFired 0, TimerFired 0]"

text \<open>
  Two requests reach the server's limiter in the same millisecond, and the callback of
  the timer that the second one set for 1500 ms runs when \<open>Date.now()\<close> reads 1499
  more than it did when the timer was set.
\<close>

definition early_clock :: clock where
  "early_clock k = (if k < 3 then 1700000000000 else 1700000001499)"

section \<open>The drain loop, one step at a time\<close>

lemma drain_Nil: "pending w = [] \<Longrightarrow> drain clk w = w\<lparr> processing := False \<rparr>"
  by (simp add: drain.simps)

lemma drain_wait:
  "pending w = r # rest \<Longrightarrow> clk (reads w) - lastCallTime w < minDelay w \<Longrightarrow>
   drain clk w = w\<lparr> pending := rest, reads := Suc (reads w),
     parked := parked w @ [(r, minDelay w - (clk (reads w) - lastCallTime w))] \<rparr>"
  by (subst drain.simps) (simp add: Let_def)

lemma drain_go:
  "pending w = r # rest \<Longrightarrow> \<not> clk (reads w) - lastCallTime w < minDelay w \<Longrightarrow>
   drain clk w = drain clk (release clk r (w\<lparr> pending := rest, reads := Suc (reads w) \<rparr>))"
  by (subst drain.simps) (simp add: Let_def)

lemma drain_minDelay: "minDelay (drain clk w) = minDelay w"
proof (induction "pending w" arbitrary: w)
  case Nil
  then show ?case by (simp add: drain_Nil)
next
  case (Cons r rest)
  show ?case
  proof (cases "clk (reads w) - lastCallTime w < minDelay w")
    case True
    then show ?thesis using Cons.hyps(2) by (simp add: drain_wait [of w r rest])
  next
    case False
    have "minDelay (drain clk (release clk r (w\<lparr>pending := rest, reads := Suc (reads w)\<rparr>))) =
      minDelay (release clk r (w\<lparr>pending := rest, reads := Suc (reads w)\<rparr>))"
      by (rule Cons.hyps(1)) (simp add: release_def)
    then show ?thesis using Cons.hyps(2) False
      by (simp add: drain_go [of w r rest] release_def)
  qed
qed

lemma drain_single:
  "parked w = [] \<Longrightarrow> processing w \<Longrightarrow> single (drain clk w)"
proof (induction "pending w" arbitrary: w)
  case Nil
  then show ?case by (simp add: drain_Nil single_def)
next
  case (Cons r rest)
  show ?case
  proof (cases "clk (reads w) - lastCallTime w < minDelay w")
    case True
    then show ?thesis using Cons.hyps(2) Cons.prems
      by (simp add: drain_wait [of w r rest] single_def)
  next
    case False
    have "single (drain clk (release clk r (w\<lparr>pending := rest, reads := Suc (reads w)\<rparr>)))"
      by (rule Cons.hyps(1)) (simp_all add: release_def Cons.prems)
    then show ?thesis using Cons.hyps(2) False
      by (simp add: drain_go [of w r rest])
  qed
qed

lemma drain_conserved:
  "parked w = [] \<Longrightarrow> conserved w \<Longrightarrow> conserved (drain clk w)"
proof (induction "pending w" arbitrary: w)
  case Nil
  then show ?case by (simp add: drain_Nil conserved_def queued_def)
next
  case (Cons r rest)
  show ?case
  proof (cases "clk (reads w) - lastCallTime w < minDelay w")
    case True
    then show ?thesis using Cons.hyps(2) [symmetric] Cons.prems
      by (simp add: drain_wait [of w r rest] conserved_def queued_def)
  next
    case False
    have "conserved (drain clk (release clk r (w\<lparr>pending := rest, reads := Suc (reads w)\<rparr>)))"
      using Cons.prems Cons.hyps(2) [symmetric]
      by (intro Cons.hyps(1)) (simp_all add: release_def conserved_def queued_def resolve_promise_def)
    then show ?thesis using Cons.hyps(2) False
      by (simp add: drain_go [of w r rest])
  qed
qed

lemma upt_split_head:
  assumes "xs @ r # rest = [0..<n]"
  shows "r = length xs \<and> length xs < n"
proof -
  have len: "length xs + Suc (length rest) = n"
    using arg_cong [OF assms, of length] by simp
  then have lt: "length xs < n" by simp
  have "(xs @ r # rest) ! length xs = [0..<n] ! length xs"
    using assms by simp
  then show ?thesis using lt by simp
qed

lemma release_settled:
  assumes "settled w" and "r = length (calls w)" and "r < length (promises w)"
  shows "settled (release clk r w)"
proof -
  let ?ps = "promises w"
  have ps: "?ps = map (\<lambda>i. if i < length (calls w) then Fulfilled else Pending) [0..<length ?ps]"
    using assms(1) by (simp add: settled_def)
  have lt: "length (calls w) < length ?ps"
    using assms(2,3) by simp
  have "?ps ! length (calls w) = Pending"
    by (subst ps) (simp add: lt)
  then have pend: "?ps ! r = Pending"
    using assms(2) by simp
  have "resolve_promise r ?ps = ?ps[r := Fulfilled]"
    using pend assms(3) by (simp add: resolve_promise_def)
  moreover have "?ps[r := Fulfilled] =
    map (\<lambda>i. if i < Suc (length (calls w)) then Fulfilled else Pending) [0..<length ?ps]"
  proof (rule nth_equalityI)
    show "length (?ps[r := Fulfilled]) = length (map (\<lambda>i. if i < Suc (length (calls w)) then Fulfilled else Pending) [0..<length ?ps])"
      by simp
  next
    fix i assume "i < length (?ps[r := Fulfilled])"
    then have i: "i < length ?ps" by simp
    have "?ps ! i = (if i < length (calls w) then Fulfilled else Pending)"
      by (subst ps) (simp add: i)
    then show "?ps[r := Fulfilled] ! i =
       map (\<lambda>i. if i < Suc (length (calls w)) then Fulfilled else Pending) [0..<length ?ps] ! i"
      using i assms(2) by (auto simp: nth_list_update less_Suc_eq)
  qed
  ultimately show ?thesis
    by (simp add: settled_def release_def)
qed

lemma drain_settled:
  "parked w = [] \<Longrightarrow> conserved w \<Longrightarrow> settled w \<Longrightarrow> settled (drain clk w)"
proof (induction "pending w" arbitrary: w)
  case Nil
  then show ?case by (simp add: drain_Nil settled_def)
next
  case (Cons r rest)
  show ?case
  proof (cases "clk (reads w) - lastCallTime w < minDelay w")
    case True
    then show ?thesis using Cons.hyps(2) [symmetric] Cons.prems
      by (simp add: drain_wait [of w r rest] settled_def)
  next
    case False
    let ?w = "w\<lparr>pending := rest, reads := Suc (reads w)\<rparr>"
    have eq: "map fst (calls w) @ r # rest = [0..<length (promises w)]"
      using Cons.prems Cons.hyps(2) [symmetric] by (simp add: conserved_def queued_def)
    have r: "r = length (calls w) \<and> length (calls w) < length (promises w)"
      using upt_split_head [OF eq] by simp
    have s: "settled (release clk r ?w)"
      using Cons.prems r by (intro release_settled) (simp_all add: settled_def)
    have c: "conserved (release clk r ?w)"
      using eq by (simp add: release_def conserved_def queued_def resolve_promise_def Cons.prems)
    have "settled (drain clk (release clk r ?w))"
      using s c Cons.prems by (intro Cons.hyps(1)) (simp_all add: release_def)
    then show ?thesis using Cons.hyps(2) False
      by (simp add: drain_go [of w r rest])
  qed
qed

lemma monotonic_Suc: "monotonic clk \<Longrightarrow> clk k \<le> clk (Suc k)"
  by (simp add: monotonic_def)

section \<open>What every event preserves\<close>

lemma start_shaped: "shaped (start (constructor a))"
  by (simp add: shaped_def single_def conserved_def settled_def queued_def start_def constructor_def)

lemma conserved_length: "conserved w \<Longrightarrow> length (calls w) \<le> length (promises w)"
proof -
  assume "conserved w"
  then have "length (map fst (calls w) @ queued w) = length [0..<length (promises w)]"
    by (simp add: conserved_def)
  then show ?thesis by simp
qed

lemma push_shaped:
  assumes "conserved w" and "settled w"
  shows "conserved (w\<lparr> pending := pending w @ [length (promises w)], promises := promises w @ [Pending] \<rparr>)"
    and "settled (w\<lparr> pending := pending w @ [length (promises w)], promises := promises w @ [Pending] \<rparr>)"
proof -
  show "conserved (w\<lparr> pending := pending w @ [length (promises w)], promises := promises w @ [Pending] \<rparr>)"
    using assms(1) by (simp add: conserved_def queued_def)
  have le: "length (calls w) \<le> length (promises w)"
    using assms(1) by (rule conserved_length)
  have "promises w = map (\<lambda>i. if i < length (calls w) then Fulfilled else Pending) [0..<length (promises w)]"
    using assms(2) by (simp add: settled_def)
  then have "promises w @ [Pending] =
     map (\<lambda>i. if i < length (calls w) then Fulfilled else Pending) [0..<Suc (length (promises w))]"
    using le by simp
  then show "settled (w\<lparr> pending := pending w @ [length (promises w)], promises := promises w @ [Pending] \<rparr>)"
    by (simp add: settled_def)
qed

lemma throttle_shaped:
  assumes "shaped w"
  shows "shaped (throttle clk w)"
proof -
  let ?w = "w\<lparr> pending := pending w @ [length (promises w)], promises := promises w @ [Pending] \<rparr>"
  have s: "single w" and c: "conserved ?w" and t: "settled ?w"
    using assms push_shaped [of w] by (simp_all add: shaped_def)
  show ?thesis
  proof (cases "processing w")
    case True
    then have "throttle clk w = ?w" by (simp add: throttle_def processQueue_def)
    moreover have "single ?w" using s True by (simp add: single_def)
    ultimately show ?thesis using c t by (simp add: shaped_def)
  next
    case False
    let ?v = "?w\<lparr> processing := True \<rparr>"
    have eq: "throttle clk w = drain clk ?v"
      using False by (simp add: throttle_def processQueue_def)
    have p: "parked ?v = []" using s False by (simp add: single_def)
    have cv: "conserved ?v" using c by (simp add: conserved_def queued_def)
    have tv: "settled ?v" using t by (simp add: settled_def)
    have "single (drain clk ?v)" using p by (intro drain_single) simp_all
    moreover have "conserved (drain clk ?v)" using p cv by (rule drain_conserved)
    moreover have "settled (drain clk ?v)" using p cv tv by (rule drain_settled)
    ultimately show ?thesis by (simp add: eq shaped_def)
  qed
qed

lemma single_parked:
  "single w \<Longrightarrow> i < length (parked w) \<Longrightarrow> i = 0 \<and> parked w = [parked w ! 0] \<and> processing w"
  by (cases "parked w") (auto simp: single_def)

lemma timer_fired_shaped:
  assumes "shaped w"
  shows "shaped (timer_fired clk i w)"
proof (cases "i < length (parked w)")
  case False
  then show ?thesis using assms by (simp add: timer_fired_def)
next
  case True
  have s: "single w" and c: "conserved w" and t: "settled w"
    using assms by (simp_all add: shaped_def)
  obtain r wt where rd: "parked w ! 0 = (r, wt)" by (cases "parked w ! 0")
  have i: "i = 0" and pk: "parked w = [(r, wt)]" and pr: "processing w"
    using single_parked [OF s True] rd by simp_all
  let ?v = "w\<lparr> parked := [] \<rparr>"
  have eq: "timer_fired clk i w = drain clk (release clk r ?v)"
    using i pk by (simp add: timer_fired_def)
  have split: "map fst (calls w) @ r # pending w = [0..<length (promises w)]"
    using c pk by (simp add: conserved_def queued_def)
  have r: "r = length (calls w)" and lt: "r < length (promises w)"
    using upt_split_head [OF split] by simp_all
  have p: "parked (release clk r ?v) = []" and q: "processing (release clk r ?v)"
    using pr by (simp_all add: release_def)
  have cv: "conserved (release clk r ?v)"
    using split by (simp add: release_def conserved_def queued_def resolve_promise_def)
  have tv: "settled (release clk r ?v)"
    using t r lt by (intro release_settled) (simp_all add: settled_def)
  have "single (drain clk (release clk r ?v))" using p q by (rule drain_single)
  moreover have "conserved (drain clk (release clk r ?v))" using p cv by (rule drain_conserved)
  moreover have "settled (drain clk (release clk r ?v))" using p cv tv by (rule drain_settled)
  ultimately show ?thesis by (simp add: eq shaped_def)
qed

lemma step_shaped: "shaped w \<Longrightarrow> shaped (step clk w e)"
  by (cases e) (simp_all add: throttle_shaped timer_fired_shaped)

lemma run_shaped: "shaped w \<Longrightarrow> shaped (run clk w es)"
  by (induction es arbitrary: w) (simp_all add: step_shaped)

lemma run_minDelay: "minDelay (run clk w es) = minDelay w"
proof (induction es arbitrary: w)
  case Nil
  then show ?case by simp
next
  case (Cons e es)
  have "minDelay (step clk w e) = minDelay w"
    by (cases e) (simp_all add: throttle_def processQueue_def timer_fired_def drain_minDelay release_def)
  then show ?case using Cons.IH [of "step clk w e"] by simp
qed

section \<open>The scenario, evaluated\<close>

lemma scenario_monotonic: "monotonic scenario_clock"
  by (auto simp: monotonic_def scenario_clock_def)

lemma scenario_run:
  "run scenario_clock (start (constructor (Some 1000))) scenario_events =
     \<lparr> minDelay = 1000, lastCallTime = 7000, pending = [], processing = False,
       reads = 6, parked = [], promises = [Fulfilled, Fulfilled, Fulfilled],
       calls = [(0, 5000), (1, 6000), (2, 7000)] \<rparr>"
  by (simp add: scenario_events_def scenario_clock_def start_def constructor_def throttle_def
      processQueue_def timer_fired_def drain.simps release_def resolve_promise_def Let_def)

section \<open>Properties of the scheduler\<close>

lemma early_clock_monotonic: "monotonic early_clock"
  by (auto simp: monotonic_def early_clock_def)

text \<open>Where the loop releases at once (lines 48 and 54-58, no timer), the release is at
  least \<open>minDelay\<close> after \<open>lastCallTime\<close> when the clock has not gone backwards
  between lines 45 and 55.\<close>

lemma direct_release_spaced:
  assumes "pending w = r # rest"
    and "\<not> clk (reads w) - lastCallTime w < minDelay w"
    and "clk (reads w) \<le> clk (Suc (reads w))"
  shows "calls (release clk r (w\<lparr> pending := rest, reads := Suc (reads w) \<rparr>)) =
           calls w @ [(r, clk (Suc (reads w)))] \<and>
         minDelay w \<le> clk (Suc (reads w)) - lastCallTime w"
  using assms by (simp add: release_def)

text \<open>
  C1 fails on the code. Line 11 calls \<open>RATE_LIMIT_MS\<close> the minimum interval between
  API calls, and the loop keeps it where it releases at once: there line 48 has compared
  the elapsed time with \<open>minDelay\<close>. After the \<open>await\<close> of line 51 it releases
  without looking at the clock again, so the gap is whatever the timer made it. On the
  server's limiter, with a clock that never goes backwards, the second request asks for
  a timer of 1500 ms and is released 1499 ms after the first.
\<close>

theorem timer_release_not_rechecked:
  "parked (run early_clock rateLimiter [Throttle, Throttle]) = [(1, 1500)] \<and>
   calls (run early_clock rateLimiter [Throttle, Throttle, TimerFired 0]) =
     [(0, 1700000000000), (1, 1700000001499)] \<and>
   snd (calls (run early_clock rateLimiter [Throttle, Throttle, TimerFired 0]) ! 1) -
   snd (calls (run early_clock rateLimiter [Throttle, Throttle, TimerFired 0]) ! 0)
     < minDelay (run early_clock rateLimiter [Throttle, Throttle, TimerFired 0])"
  by (simp add: rateLimiter_def RATE_LIMIT_MS_def early_clock_def start_def constructor_def
      throttle_def processQueue_def timer_fired_def drain.simps release_def resolve_promise_def
      Let_def)

lemma reach_shaped: "shaped (run clk (start (constructor m)) es)"
  using start_shaped by (rule run_shaped)

lemma reach_minDelay:
  "minDelay (run clk (start (constructor m)) es) = minDelay (constructor m)"
  by (simp add: run_minDelay start_def)

lemma upt_prefix:
  assumes "xs @ ys = [0..<n]"
  shows "xs = [0..<length xs]"
proof (rule nth_equalityI)
  show "length xs = length [0..<length xs]" by simp
next
  fix i assume i: "i < length xs"
  have "length xs + length ys = n" using arg_cong [OF assms, of length] by simp
  then have "i < n" using i by simp
  then have "[0..<n] ! i = i" by simp
  moreover have "(xs @ ys) ! i = xs ! i" using i by (simp add: nth_append)
  ultimately show "xs ! i = [0..<length xs] ! i" using assms i by simp
qed

lemma reach_order:
  "map fst (calls (run clk (start (constructor m)) es)) =
     [0..<length (calls (run clk (start (constructor m)) es))]"
proof -
  let ?w = "run clk (start (constructor m)) es"
  have "map fst (calls ?w) @ queued ?w = [0..<length (promises ?w)]"
    using reach_shaped [of clk m es] by (simp add: shaped_def conserved_def)
  from upt_prefix [OF this] show ?thesis by simp
qed

lemma release_ordered:
  assumes "monotonic clk" and "ordered clk w"
  shows "ordered clk (release clk r w)"
proof -
  have m: "clk (reads w) \<le> clk (Suc (reads w))" using assms(1) by (rule monotonic_Suc)
  have "snd c \<le> clk (Suc (reads w))" if "c \<in> set (calls w)" for c
  proof -
    have "snd c \<le> clk (reads w)" using assms(2) that by (simp add: ordered_def)
    then show ?thesis using m by simp
  qed
  then show ?thesis using assms(2) m
    by (auto simp: ordered_def release_def sorted_append)
qed

lemma tick_ordered:
  assumes "monotonic clk" and "ordered clk w"
  shows "ordered clk (w\<lparr> pending := ps, reads := Suc (reads w) \<rparr>)"
proof -
  have m: "clk (reads w) \<le> clk (Suc (reads w))" using assms(1) by (rule monotonic_Suc)
  have "snd c \<le> clk (Suc (reads w))" if "c \<in> set (calls w)" for c
  proof -
    have "snd c \<le> clk (reads w)" using assms(2) that by (simp add: ordered_def)
    then show ?thesis using m by simp
  qed
  then show ?thesis using assms(2) by (simp add: ordered_def)
qed

lemma drain_ordered:
  "monotonic clk \<Longrightarrow> ordered clk w \<Longrightarrow> ordered clk (drain clk w)"
proof (induction "pending w" arbitrary: w)
  case Nil
  then show ?case by (simp add: drain_Nil ordered_def)
next
  case (Cons r rest)
  let ?w = "w\<lparr>pending := rest, reads := Suc (reads w)\<rparr>"
  have t: "ordered clk ?w" using Cons.prems by (rule tick_ordered)
  show ?case
  proof (cases "clk (reads w) - lastCallTime w < minDelay w")
    case True
    have "drain clk w = ?w\<lparr> parked := parked w @
        [(r, minDelay w - (clk (reads w) - lastCallTime w))] \<rparr>"
      using Cons.hyps(2) [symmetric] True by (simp add: drain_wait [of w r rest])
    then show ?thesis using t by (simp add: ordered_def)
  next
    case False
    have "ordered clk (release clk r ?w)" using Cons.prems(1) t by (rule release_ordered)
    then have "ordered clk (drain clk (release clk r ?w))"
      using Cons.prems(1) by (intro Cons.hyps(1)) (simp_all add: release_def)
    then show ?thesis using Cons.hyps(2) False
      by (simp add: drain_go [of w r rest])
  qed
qed

lemma step_ordered:
  assumes "monotonic clk" and "ordered clk w"
  shows "ordered clk (step clk w e)"
proof (cases e)
  case Throttle
  let ?w = "w\<lparr> pending := pending w @ [length (promises w)], promises := promises w @ [Pending] \<rparr>"
  have t: "ordered clk ?w" using assms(2) by (simp add: ordered_def)
  show ?thesis
  proof (cases "processing w")
    case True
    then show ?thesis using t Throttle by (simp add: throttle_def processQueue_def)
  next
    case False
    have "ordered clk (?w\<lparr> processing := True \<rparr>)" using t by (simp add: ordered_def)
    then have "ordered clk (drain clk (?w\<lparr> processing := True \<rparr>))"
      using assms(1) by (intro drain_ordered)
    then show ?thesis using False Throttle by (simp add: throttle_def processQueue_def)
  qed
next
  case (TimerFired i)
  show ?thesis
  proof (cases "i < length (parked w)")
    case False
    then show ?thesis using assms(2) TimerFired by (simp add: timer_fired_def)
  next
    case True
    let ?v = "w\<lparr> parked := take i (parked w) @ drop (Suc i) (parked w) \<rparr>"
    have "ordered clk ?v" using assms(2) by (simp add: ordered_def)
    then have "ordered clk (release clk (fst (parked w ! i)) ?v)"
      using assms(1) by (intro release_ordered)
    then have "ordered clk (drain clk (release clk (fst (parked w ! i)) ?v))"
      using assms(1) by (intro drain_ordered)
    then show ?thesis using True TimerFired by (simp add: timer_fired_def)
  qed
qed

lemma run_ordered: "monotonic clk \<Longrightarrow> ordered clk w \<Longrightarrow> ordered clk (run clk w es)"
  by (induction es arbitrary: w) (simp_all add: step_ordered)

lemma reach_ordered:
  "monotonic clk \<Longrightarrow> ordered clk (run clk (start (constructor m)) es)"
  by (rule run_ordered) (simp_all add: ordered_def start_def)

text \<open>
  C2. FIFO invariant: the \<open>k\<close>-th resolve call of a run is for the \<open>k\<close>-th promise that
  \<open>throttle\<close> created, so of two requests the one submitted first is released first,
  whatever the order of the events; and when the clock does not go backwards, at a time
  that is not later.
\<close>

theorem fifo_invariant:
  assumes "i < j"
    and "j < length (calls (run clk (start (constructor m)) es))"
  shows "fst (calls (run clk (start (constructor m)) es) ! i) = i \<and>
         fst (calls (run clk (start (constructor m)) es) ! j) = j \<and>
         (monotonic clk \<longrightarrow>
            snd (calls (run clk (start (constructor m)) es) ! i) \<le>
            snd (calls (run clk (start (constructor m)) es) ! j))"
proof -
  let ?w = "run clk (start (constructor m)) es"
  have o: "map fst (calls ?w) = [0..<length (calls ?w)]" by (rule reach_order)
  have "map fst (calls ?w) ! i = i" "map fst (calls ?w) ! j = j"
    using assms by (simp_all add: o)
  then have ids: "fst (calls ?w ! i) = i" "fst (calls ?w ! j) = j"
    using assms by simp_all
  have "snd (calls ?w ! i) \<le> snd (calls ?w ! j)" if "monotonic clk"
  proof -
    have "sorted (map snd (calls ?w))"
      using reach_ordered [OF that] by (simp add: ordered_def)
    then have "map snd (calls ?w) ! i \<le> map snd (calls ?w) ! j"
      using assms by (intro sorted_nth_mono) simp_all
    then show ?thesis using assms by simp
  qed
  then show ?thesis using ids by simp
qed

theorem fifo_invariant_witness:
  "(0::nat) < 2 \<and>
   2 < length (calls (run scenario_clock (start (constructor (Some 1000))) scenario_events)) \<and>
   monotonic scenario_clock \<and>
   fst (calls (run scenario_clock (start (constructor (Some 1000))) scenario_events) ! 0) = 0 \<and>
   fst (calls (run scenario_clock (start (constructor (Some 1000))) scenario_events) ! 2) = 2 \<and>
   snd (calls (run scenario_clock (start (constructor (Some 1000))) scenario_events) ! 0) \<le>
   snd (calls (run scenario_clock (start (constructor (Some 1000))) scenario_events) ! 2)"
proof -
  have lt: "(0::nat) < 2" by simp
  have len: "2 < length (calls (run scenario_clock (start (constructor (Some 1000))) scenario_events))"
    by (simp add: scenario_run)
  show ?thesis
    using fifo_invariant [OF lt len] scenario_monotonic len by simp
qed

lemma count_list_upt: "count_list [0..<k] p = (if p < k then 1 else 0)"
  by (induction k) auto

lemma drain_queued_le: "length (queued (drain clk w)) \<le> length (queued w)"
proof (induction "pending w" arbitrary: w)
  case Nil
  then show ?case by (simp add: drain_Nil queued_def)
next
  case (Cons r rest)
  show ?case
  proof (cases "clk (reads w) - lastCallTime w < minDelay w")
    case True
    then show ?thesis using Cons.hyps(2) [symmetric]
      by (simp add: drain_wait [of w r rest] queued_def)
  next
    case False
    let ?w = "w\<lparr>pending := rest, reads := Suc (reads w)\<rparr>"
    have "length (queued (drain clk (release clk r ?w))) \<le> length (queued (release clk r ?w))"
      by (rule Cons.hyps(1)) (simp add: release_def)
    then show ?thesis using Cons.hyps(2) [symmetric] False
      by (simp add: drain_go [of w r rest] queued_def release_def)
  qed
qed

lemma timer_fired_progress:
  assumes "single w" and "parked w \<noteq> []"
  shows "length (queued (timer_fired clk 0 w)) < length (queued w)"
proof -
  have lt: "0 < length (parked w)" using assms(2) by simp
  obtain r d where rd: "parked w ! 0 = (r, d)" by (cases "parked w ! 0")
  have pk: "parked w = [(r, d)]" using single_parked [OF assms(1) lt] rd by simp
  let ?v = "w\<lparr> parked := [] \<rparr>"
  have eq: "timer_fired clk 0 w = drain clk (release clk r ?v)"
    using pk by (simp add: timer_fired_def)
  have "length (queued (drain clk (release clk r ?v))) \<le> length (queued (release clk r ?v))"
    by (rule drain_queued_le)
  then show ?thesis using pk by (simp add: eq queued_def release_def)
qed

lemma flush:
  "shaped w \<Longrightarrow> length (queued w) \<le> n \<Longrightarrow>
   queued (run clk w (replicate n (TimerFired 0))) = []"
proof (induction n arbitrary: w)
  case 0
  then show ?case by simp
next
  case (Suc n)
  have s: "single w" using Suc.prems(1) by (simp add: shaped_def)
  have sh: "shaped (timer_fired clk 0 w)" using Suc.prems(1) by (rule timer_fired_shaped)
  have "length (queued (timer_fired clk 0 w)) \<le> n"
  proof (cases "parked w = []")
    case True
    then have "queued w = []" using s by (simp add: single_def queued_def)
    then show ?thesis using True by (simp add: timer_fired_def)
  next
    case False
    then show ?thesis using timer_fired_progress [OF s False, of clk] Suc.prems(2) by simp
  qed
  then show ?case using Suc.IH [OF sh] by simp
qed

lemma shaped_promise:
  assumes "shaped w" and "p < length (promises w)"
  shows "promises w ! p = (if p < length (calls w) then Fulfilled else Pending)"
proof -
  have "promises w = map (\<lambda>i. if i < length (calls w) then Fulfilled else Pending) [0..<length (promises w)]"
    using assms(1) by (simp add: shaped_def settled_def)
  then have "promises w ! p =
    map (\<lambda>i. if i < length (calls w) then Fulfilled else Pending) [0..<length (promises w)] ! p"
    by simp
  then show ?thesis using assms(2) by simp
qed

lemma shaped_order:
  assumes "shaped w"
  shows "map fst (calls w) = [0..<length (calls w)]"
proof -
  have "map fst (calls w) @ queued w = [0..<length (promises w)]"
    using assms by (simp add: shaped_def conserved_def)
  from upt_prefix [OF this] show ?thesis by simp
qed

lemma shaped_done:
  assumes "shaped w" and "queued w = []"
  shows "length (calls w) = length (promises w)"
proof -
  have "map fst (calls w) @ queued w = [0..<length (promises w)]"
    using assms(1) by (simp add: shaped_def conserved_def)
  then have "length (map fst (calls w) @ queued w) = length [0..<length (promises w)]"
    by simp
  then show ?thesis using assms(2) by simp
qed

lemma drain_length_promises: "length (promises (drain clk w)) = length (promises w)"
proof (induction "pending w" arbitrary: w)
  case Nil
  then show ?case by (simp add: drain_Nil)
next
  case (Cons r rest)
  show ?case
  proof (cases "clk (reads w) - lastCallTime w < minDelay w")
    case True
    then show ?thesis using Cons.hyps(2) [symmetric] by (simp add: drain_wait [of w r rest])
  next
    case False
    let ?w = "w\<lparr>pending := rest, reads := Suc (reads w)\<rparr>"
    have "length (promises (drain clk (release clk r ?w))) = length (promises (release clk r ?w))"
      by (rule Cons.hyps(1)) (simp add: release_def)
    then show ?thesis using Cons.hyps(2) [symmetric] False
      by (simp add: drain_go [of w r rest] release_def resolve_promise_def)
  qed
qed

lemma fire_length_promises:
  "length (promises (run clk w (replicate n (TimerFired i)))) = length (promises w)"
  by (induction n arbitrary: w)
    (simp_all add: timer_fired_def drain_length_promises release_def resolve_promise_def)

text \<open>
  C3. Exactly-once resolution. In every state a run from a fresh limiter reaches, no
  promise of \<open>throttle\<close> has had its \<open>resolve\<close> called twice, none is rejected, and one
  is fulfilled exactly when its \<open>resolve\<close> has been called. When no timer is outstanding
  every promise has been resolved; and from any state, once the outstanding timers have
  fired (as many times as entries are queued), every promise has been resolved, once.
\<close>

theorem exactly_once_resolution:
  assumes "p < length (promises (run clk (start (constructor m)) es))"
  shows "count_list (map fst (calls (run clk (start (constructor m)) es))) p \<le> 1 \<and>
         promises (run clk (start (constructor m)) es) ! p \<noteq> Rejected \<and>
         (promises (run clk (start (constructor m)) es) ! p = Fulfilled) =
           (count_list (map fst (calls (run clk (start (constructor m)) es))) p = 1) \<and>
         (parked (run clk (start (constructor m)) es) = [] \<longrightarrow>
            promises (run clk (start (constructor m)) es) ! p = Fulfilled) \<and>
         promises (run clk (run clk (start (constructor m)) es)
            (replicate (length (queued (run clk (start (constructor m)) es))) (TimerFired 0))) ! p
           = Fulfilled \<and>
         count_list (map fst (calls (run clk (run clk (start (constructor m)) es)
            (replicate (length (queued (run clk (start (constructor m)) es))) (TimerFired 0))))) p
           = 1"
proof -
  let ?w = "run clk (start (constructor m)) es"
  let ?v = "run clk ?w (replicate (length (queued ?w)) (TimerFired 0))"
  have sh: "shaped ?w" by (rule reach_shaped)
  have shv: "shaped ?v" using sh by (rule run_shaped)
  have c: "count_list (map fst (calls ?w)) p = (if p < length (calls ?w) then 1 else 0)"
    by (simp add: shaped_order [OF sh] count_list_upt)
  have pr: "promises ?w ! p = (if p < length (calls ?w) then Fulfilled else Pending)"
    using sh assms by (rule shaped_promise)
  have idle: "parked ?w = [] \<longrightarrow> p < length (calls ?w)"
  proof
    assume "parked ?w = []"
    then have "queued ?w = []" using sh by (simp add: shaped_def single_def queued_def)
    then show "p < length (calls ?w)" using shaped_done [OF sh] assms by simp
  qed
  have qv: "queued ?v = []" using sh by (intro flush) simp_all
  have lenv: "length (promises ?v) = length (promises ?w)"
    by (rule fire_length_promises)
  have pv: "p < length (calls ?v)"
    using shaped_done [OF shv qv] lenv assms by simp
  have "promises ?v ! p = Fulfilled"
    using shaped_promise [OF shv, of p] lenv assms pv by simp
  moreover have "count_list (map fst (calls ?v)) p = 1"
    using pv by (simp add: shaped_order [OF shv] count_list_upt)
  ultimately show ?thesis using c pr idle by auto
qed

theorem exactly_once_resolution_witness:
  "(1::nat) < length (promises (run scenario_clock (start (constructor (Some 1000)))
       [Throttle, Throttle, Throttle])) \<and>
   count_list (map fst (calls (run scenario_clock (start (constructor (Some 1000)))
       [Throttle, Throttle, Throttle]))) 1 = 0 \<and>
   promises (run scenario_clock (start (constructor (Some 1000)))
       [Throttle, Throttle, Throttle]) ! 1 = Pending \<and>
   promises (run scenario_clock (run scenario_clock (start (constructor (Some 1000)))
       [Throttle, Throttle, Throttle]) [TimerFired 0, TimerFired 0]) ! 1 = Fulfilled \<and>
   count_list (map fst (calls (run scenario_clock (run scenario_clock (start (constructor (Some 1000)))
       [Throttle, Throttle, Throttle]) [TimerFired 0, TimerFired 0]))) 1 = 1 \<and>
   (1::nat) < length (promises (run scenario_clock (start (constructor (Some 1000))) scenario_events)) \<and>
   parked (run scenario_clock (start (constructor (Some 1000))) scenario_events) = [] \<and>
   promises (run scenario_clock (start (constructor (Some 1000))) scenario_events) ! 1 = Fulfilled"
proof -
  let ?w = "run scenario_clock (start (constructor (Some 1000))) [Throttle, Throttle, Throttle]"
  let ?v = "run scenario_clock (start (constructor (Some 1000))) scenario_events"
  have w: "?w = \<lparr> minDelay = 1000, lastCallTime = 5000, pending = [2], processing = True,
       reads = 3, parked = [(1, 1000)], promises = [Fulfilled, Pending, Pending],
       calls = [(0, 5000)] \<rparr>"
    by (simp add: scenario_clock_def start_def constructor_def throttle_def
      processQueue_def drain.simps release_def resolve_promise_def Let_def)
  have p: "1 < length (promises ?w)" unfolding w by simp
  have q: "replicate (length (queued ?w)) (TimerFired 0) = [TimerFired 0, TimerFired 0]"
    unfolding w by (simp add: queued_def numeral_2_eq_2)
  have a: "count_list (map fst (calls ?w)) 1 = 0 \<and> promises ?w ! 1 = Pending \<and>
     promises (run scenario_clock ?w [TimerFired 0, TimerFired 0]) ! 1 = Fulfilled \<and>
     count_list (map fst (calls (run scenario_clock ?w [TimerFired 0, TimerFired 0]))) 1 = 1"
    using exactly_once_resolution [OF p] unfolding q w
    by (simp add: scenario_clock_def timer_fired_def drain.simps release_def
        resolve_promise_def Let_def)
  have pv: "1 < length (promises ?v)" by (simp add: scenario_run)
  have kv: "parked ?v = []" by (simp add: scenario_run)
  have "promises ?v ! 1 = Fulfilled"
    using exactly_once_resolution [OF pv] kv by blast
  then show ?thesis using a p pv kv by blast
qed

text \<open>
  C4. Single drain loop. In every state a run from a fresh limiter reaches, at most one
  activation of \<open>processQueue\<close> is suspended in its loop, and \<open>processing\<close> is set
  exactly when there is one; and a call of \<open>processQueue\<close> while \<open>processing\<close> is set
  returns the state as it found it.
\<close>

theorem single_drain_loop:
  "length (parked (run clk (start (constructor m)) es)) \<le> 1 \<and>
   processing (run clk (start (constructor m)) es) =
     (parked (run clk (start (constructor m)) es) \<noteq> []) \<and>
   (\<forall>w. processing w \<longrightarrow> processQueue clk w = w)"
proof -
  have "single (run clk (start (constructor m)) es)"
    using reach_shaped [of clk m es] by (simp add: shaped_def)
  then show ?thesis by (simp add: single_def processQueue_def)
qed

theorem single_drain_loop_witness:
  "length (parked (run scenario_clock (start (constructor (Some 1000))) [Throttle, Throttle])) = 1 \<and>
   processing (run scenario_clock (start (constructor (Some 1000))) [Throttle, Throttle]) \<and>
   processQueue scenario_clock
     (run scenario_clock (start (constructor (Some 1000))) [Throttle, Throttle]) =
     run scenario_clock (start (constructor (Some 1000))) [Throttle, Throttle]"
proof -
  let ?w = "run scenario_clock (start (constructor (Some 1000))) [Throttle, Throttle]"
  have w: "?w = \<lparr> minDelay = 1000, lastCallTime = 5000, pending = [], processing = True,
       reads = 3, parked = [(1, 1000)], promises = [Fulfilled, Pending],
       calls = [(0, 5000)] \<rparr>"
    by (simp add: scenario_clock_def start_def constructor_def throttle_def
      processQueue_def drain.simps release_def resolve_promise_def Let_def)
  have p: "processing ?w" unfolding w by simp
  have l: "length (parked ?w) = 1" unfolding w by simp
  have "processQueue scenario_clock ?w = ?w"
    using single_drain_loop [of scenario_clock "Some 1000" "[Throttle, Throttle]"] p by blast
  then show ?thesis using p l by simp
qed

lemma drain_keeps: "accounted w \<subseteq> accounted (drain clk w)"
proof (induction "pending w" arbitrary: w)
  case Nil
  then show ?case by (simp add: drain_Nil queued_def accounted_def)
next
  case (Cons r rest)
  show ?case
  proof (cases "clk (reads w) - lastCallTime w < minDelay w")
    case True
    then show ?thesis using Cons.hyps(2) [symmetric]
      by (auto simp: drain_wait [of w r rest] queued_def accounted_def)
  next
    case False
    let ?w = "w\<lparr>pending := rest, reads := Suc (reads w)\<rparr>"
    have "accounted w \<subseteq> accounted (release clk r ?w)"
      using Cons.hyps(2) [symmetric] by (auto simp: queued_def release_def accounted_def)
    also have "\<dots> \<subseteq> accounted (drain clk (release clk r ?w))"
      by (rule Cons.hyps(1)) (simp add: release_def)
    also have "drain clk (release clk r ?w) = drain clk w"
      using Cons.hyps(2) [symmetric] False by (simp add: drain_go [of w r rest])
    finally show ?thesis .
  qed
qed

lemma set_without_nth:
  assumes "i < length xs"
  shows "set xs = insert (xs ! i) (set (take i xs @ drop (Suc i) xs))"
proof -
  have e: "xs = take i xs @ xs ! i # drop (Suc i) xs"
    using assms by (rule id_take_nth_drop)
  have "set xs = set (take i xs @ xs ! i # drop (Suc i) xs)"
    by (rule arg_cong [OF e])
  also have "\<dots> = insert (xs ! i) (set (take i xs @ drop (Suc i) xs))"
    by simp
  finally show ?thesis .
qed

lemma throttle_keeps: "accounted w \<subseteq> accounted (throttle clk w)"
proof -
  let ?w = "w\<lparr> pending := pending w @ [length (promises w)], promises := promises w @ [Pending] \<rparr>"
  have a: "accounted w \<subseteq> accounted ?w" by (auto simp: queued_def accounted_def)
  show ?thesis
  proof (cases "processing w")
    case True
    then show ?thesis using a by (simp add: throttle_def processQueue_def)
  next
    case False
    have "accounted w \<subseteq> accounted (?w\<lparr>processing := True\<rparr>)"
      by (auto simp: queued_def accounted_def)
    also have "\<dots> \<subseteq> accounted (drain clk (?w\<lparr>processing := True\<rparr>))"
      by (rule drain_keeps)
    also have "drain clk (?w\<lparr>processing := True\<rparr>) = throttle clk w"
      using False by (simp add: throttle_def processQueue_def)
    finally show ?thesis .
  qed
qed

lemma timer_fired_keeps: "accounted w \<subseteq> accounted (timer_fired clk i w)"
proof (cases "i < length (parked w)")
  case False
  then show ?thesis by (simp add: timer_fired_def)
next
  case True
  let ?v = "release clk (fst (parked w ! i))
           (w\<lparr> parked := take i (parked w) @ drop (Suc i) (parked w) \<rparr>)"
  let ?rest = "take i (parked w) @ drop (Suc i) (parked w)"
  have "accounted w = fst ` set (parked w) \<union> set (pending w) \<union> fst ` set (calls w)"
    by (simp add: accounted_def queued_def)
  also have "set (parked w) = insert (parked w ! i) (set ?rest)"
    using True by (rule set_without_nth)
  also have "fst ` insert (parked w ! i) (set ?rest) \<union> set (pending w) \<union> fst ` set (calls w)
      \<subseteq> accounted ?v"
    by (auto simp: accounted_def queued_def release_def)
  also have "\<dots> \<subseteq> accounted (drain clk ?v)"
    by (rule drain_keeps)
  also have "drain clk ?v = timer_fired clk i w"
    using True by (simp add: timer_fired_def)
  finally show ?thesis .
qed

lemma step_keeps: "accounted w \<subseteq> accounted (step clk w e)"
  by (cases e) (simp_all add: throttle_keeps timer_fired_keeps)

text \<open>
  C5, as stated, fails: the class offers no cancel operation. No call of \<open>throttle\<close>
  and no timer, in any state, withdraws a queued entry; and in the spec's scenario the
  second request cannot be taken out of the queue, so it is released at 6000 and the
  third at 7000.
\<close>

theorem no_cancel_in_scenario:
  "\<not> (\<exists>clk w e. withdrawn w (step clk w e) \<noteq> {}) \<and>
   calls (run scenario_clock (start (constructor (Some 1000))) scenario_events) =
     [(0, 5000), (1, 6000), (2, 7000)]"
proof -
  have "withdrawn w (step clk w e) = {}" for clk w e
    using step_keeps [of w clk e] by (auto simp: withdrawn_def accounted_def)
  then show ?thesis by (simp add: scenario_run)
qed

lemma drain_stamped: "stamped w \<Longrightarrow> stamped (drain clk w)"
proof (induction "pending w" arbitrary: w)
  case Nil
  then show ?case by (simp add: drain_Nil stamped_def)
next
  case (Cons r rest)
  show ?case
  proof (cases "clk (reads w) - lastCallTime w < minDelay w")
    case True
    then show ?thesis using Cons.hyps(2) [symmetric] Cons.prems
      by (simp add: drain_wait [of w r rest] stamped_def)
  next
    case False
    let ?w = "w\<lparr>pending := rest, reads := Suc (reads w)\<rparr>"
    have "stamped (drain clk (release clk r ?w))"
      by (rule Cons.hyps(1)) (simp_all add: release_def stamped_def)
    then show ?thesis using Cons.hyps(2) [symmetric] False
      by (simp add: drain_go [of w r rest])
  qed
qed

lemma step_stamped: "stamped w \<Longrightarrow> stamped (step clk w e)"
proof (cases e)
  case Throttle
  assume "stamped w"
  then have "stamped (w\<lparr> pending := pending w @ [length (promises w)],
       promises := promises w @ [Pending], processing := True \<rparr>)"
    by (simp add: stamped_def)
  then have "stamped (drain clk (w\<lparr> pending := pending w @ [length (promises w)],
       promises := promises w @ [Pending], processing := True \<rparr>))"
    by (rule drain_stamped)
  then show ?thesis using Throttle \<open>stamped w\<close>
    by (simp add: throttle_def processQueue_def stamped_def)
next
  case (TimerFired i)
  have "stamped (drain clk (release clk (fst (parked w ! i))
             (w\<lparr> parked := take i (parked w) @ drop (Suc i) (parked w) \<rparr>)))"
    by (rule drain_stamped) (simp add: release_def stamped_def)
  moreover assume "stamped w"
  ultimately show ?thesis using TimerFired by (simp add: timer_fired_def)
qed

lemma run_stamped: "stamped w \<Longrightarrow> stamped (run clk w es)"
  by (induction es arbitrary: w) (simp_all add: step_stamped)

text \<open>
  C5, as the code has it. The class has no cancel operation: whatever the state, a call of
  \<open>throttle\<close> or a timer firing leaves every queued entry either queued or released.
  In a run from a fresh limiter the entries released, followed by the ones still queued,
  are the promises in creation order, so an entry leaves the queue only by being
  released; and \<open>lastCallTime\<close> is the time of the last release.
\<close>

theorem entries_leave_only_by_release:
  "set (queued w) \<subseteq> set (queued (step clk w e)) \<union> fst ` set (calls (step clk w e)) \<and>
   map fst (calls (run clk (start (constructor m)) es)) @ queued (run clk (start (constructor m)) es) =
     [0..<length (promises (run clk (start (constructor m)) es))] \<and>
   (calls (run clk (start (constructor m)) es) \<noteq> [] \<longrightarrow>
      lastCallTime (run clk (start (constructor m)) es) =
        snd (last (calls (run clk (start (constructor m)) es))))"
proof -
  have a: "set (queued w) \<subseteq> set (queued (step clk w e)) \<union> fst ` set (calls (step clk w e))"
    using step_keeps [of w clk e] by (auto simp: accounted_def)
  have b: "map fst (calls (run clk (start (constructor m)) es)) @
      queued (run clk (start (constructor m)) es) =
     [0..<length (promises (run clk (start (constructor m)) es))]"
    using reach_shaped [of clk m es] by (simp add: shaped_def conserved_def)
  have "stamped (start (constructor m))" by (simp add: stamped_def start_def)
  then have "stamped (run clk (start (constructor m)) es)" by (rule run_stamped)
  then show ?thesis using a b by (simp add: stamped_def)
qed

theorem entries_leave_only_by_release_witness:
  "calls (run scenario_clock (start (constructor (Some 1000))) [Throttle, Throttle, Throttle]) \<noteq> [] \<and>
   lastCallTime (run scenario_clock (start (constructor (Some 1000))) [Throttle, Throttle, Throttle]) =
     snd (last (calls (run scenario_clock (start (constructor (Some 1000))) [Throttle, Throttle, Throttle]))) \<and>
   map fst (calls (run scenario_clock (start (constructor (Some 1000))) [Throttle, Throttle, Throttle])) @
     queued (run scenario_clock (start (constructor (Some 1000))) [Throttle, Throttle, Throttle]) =
     [0, 1, 2]"
proof -
  let ?w = "run scenario_clock (start (constructor (Some 1000))) [Throttle, Throttle, Throttle]"
  have w: "?w = \<lparr> minDelay = 1000, lastCallTime = 5000, pending = [2], processing = True,
       reads = 3, parked = [(1, 1000)], promises = [Fulfilled, Pending, Pending],
       calls = [(0, 5000)] \<rparr>"
    by (simp add: scenario_clock_def start_def constructor_def throttle_def
      processQueue_def drain.simps release_def resolve_promise_def Let_def)
  have c: "calls ?w \<noteq> []" unfolding w by simp
  have q: "map fst (calls ?w) @ queued ?w = [0, 1, 2]" unfolding w by (simp add: queued_def)
  show ?thesis
    using entries_leave_only_by_release [of ?w scenario_clock Throttle "Some 1000"
        "[Throttle, Throttle, Throttle]"] c q
    by blast
qed

text \<open>On the server's limiter, and on any limiter whose \<open>minDelay\<close> is not above the
  clock value, the first request is released at once.\<close>

lemma first_request_immediate:
  "minDelay (constructor m) \<le> clk 0 \<Longrightarrow>
   calls (throttle clk (start (constructor m))) = [(0, clk 1)] \<and>
   parked (throttle clk (start (constructor m))) = []"
  by (simp add: start_def constructor_def throttle_def processQueue_def drain.simps Let_def
      release_def)

text \<open>
  C6 fails on the code. \<open>lastCallTime\<close> starts at 0, not at a value that stands for
  "never", so line 46 takes the whole clock value for the time since the last call. A
  limiter made with \<open>minDelay = 2000000000000\<close> and first used when \<open>Date.now()\<close> reads
  1700000000000 does not release its first request: the loop suspends on a timer of
  300000000000 ms and the promise stays pending.
\<close>

theorem first_request_suspended:
  "calls (throttle (\<lambda>k. 1700000000000) (start (constructor (Some 2000000000000)))) = [] \<and>
   parked (throttle (\<lambda>k. 1700000000000) (start (constructor (Some 2000000000000)))) =
     [(0, 300000000000)] \<and>
   promises (throttle (\<lambda>k. 1700000000000) (start (constructor (Some 2000000000000)))) =
     [Pending] \<and>
   processing (throttle (\<lambda>k. 1700000000000) (start (constructor (Some 2000000000000))))"
  by (simp add: start_def constructor_def throttle_def processQueue_def drain.simps Let_def)

text \<open>
  C7, as stated, fails: the constructor has no check, and a negative argument is stored
  like any other.
\<close>

theorem negative_delay_accepted:
  "constructor (Some (- 5)) =
     \<lparr> minDelay = - 5, lastCallTime = 0, pending = [], processing = False \<rparr>"
  by (simp add: constructor_def)

text \<open>
  C7, as the code has it. Construction never fails: whatever the argument, negative
  included, the constructor returns a limiter that holds it as \<open>minDelay\<close>, with an
  empty queue; with no argument, \<open>minDelay\<close> is 1000.
\<close>

theorem constructor_accepts_any_delay:
  "constructor (Some d) = \<lparr> minDelay = d, lastCallTime = 0, pending = [], processing = False \<rparr> \<and>
   constructor None = \<lparr> minDelay = 1000, lastCallTime = 0, pending = [], processing = False \<rparr>"
  by (simp add: constructor_def)

lemma resolve_last: "resolve_promise (length ps) (ps @ [Pending]) = ps @ [Fulfilled]"
  by (simp add: resolve_promise_def)

lemma throttle_idle:
  assumes "\<not> processing w" and "pending w = []"
    and "minDelay w \<le> clk (reads w) - lastCallTime w"
  shows "throttle clk w =
     w\<lparr> lastCallTime := clk (Suc (reads w)),
        reads := Suc (Suc (reads w)),
        promises := promises w @ [Fulfilled],
        calls := calls w @ [(length (promises w), clk (Suc (reads w)))] \<rparr>"
  using assms
  by (simp add: throttle_def processQueue_def drain.simps Let_def release_def resolve_last)

lemma step_passing:
  assumes "monotonic clk" and "passing clk w"
  shows "passing clk (step clk w e)"
proof (cases e)
  case Throttle
  have a: "\<not> processing w" "pending w = []" "minDelay w \<le> clk (reads w) - lastCallTime w"
    using assms(2) by (simp_all add: passing_def)
  have "clk (Suc (reads w)) \<le> clk (Suc (Suc (reads w)))"
    using assms(1) by (rule monotonic_Suc)
  then show ?thesis using Throttle assms(2)
    by (simp add: throttle_idle [where w = w and clk = clk, OF a] passing_def)
next
  case (TimerFired i)
  then show ?thesis using assms(2) by (simp add: timer_fired_def passing_def)
qed

lemma run_passing: "monotonic clk \<Longrightarrow> passing clk w \<Longrightarrow> passing clk (run clk w es)"
  by (induction es arbitrary: w) (simp_all add: step_passing)

text \<open>
  C8. Zero-delay passthrough. With \<open>minDelay = 0\<close>, a clock that starts at or after 0
  and does not go backwards, the loop never suspends: after every event no activation is
  suspended, the queue is empty, and every promise created so far has been resolved, in
  creation order. And for any \<open>minDelay\<close>: a request submitted to an idle limiter when the
  elapsed time since \<open>lastCallTime\<close> is at least \<open>minDelay\<close> is released within its own
  call of \<open>throttle\<close>, with no timer set.
\<close>

theorem zero_delay_passthrough:
  assumes "monotonic clk" and "0 \<le> clk 0"
  shows "parked (run clk (start (constructor (Some 0))) es) = [] \<and>
         pending (run clk (start (constructor (Some 0))) es) = [] \<and>
         \<not> processing (run clk (start (constructor (Some 0))) es) \<and>
         map fst (calls (run clk (start (constructor (Some 0))) es)) =
           [0..<length (promises (run clk (start (constructor (Some 0))) es))] \<and>
         (\<forall>w. \<not> processing w \<and> pending w = [] \<and>
               minDelay w \<le> clk (reads w) - lastCallTime w \<longrightarrow>
               throttle clk w =
                 w\<lparr> lastCallTime := clk (Suc (reads w)),
                    reads := Suc (Suc (reads w)),
                    promises := promises w @ [Fulfilled],
                    calls := calls w @ [(length (promises w), clk (Suc (reads w)))] \<rparr>)"
proof -
  let ?w = "run clk (start (constructor (Some 0))) es"
  have "passing clk (start (constructor (Some 0)))"
    using assms(2) by (simp add: passing_def start_def constructor_def)
  then have p: "passing clk ?w" using assms(1) by (intro run_passing)
  then have q: "queued ?w = []" by (simp add: passing_def queued_def)
  have sh: "shaped ?w" by (rule reach_shaped)
  have "map fst (calls ?w) = [0..<length (calls ?w)]" using sh by (rule shaped_order)
  then have "map fst (calls ?w) = [0..<length (promises ?w)]"
    using shaped_done [OF sh q] by simp
  then show ?thesis using p throttle_idle [where clk = clk] by (simp add: passing_def)
qed

theorem zero_delay_passthrough_witness:
  "monotonic scenario_clock \<and> 0 \<le> scenario_clock 0 \<and>
   run scenario_clock (start (constructor (Some 0))) [Throttle, Throttle, Throttle] =
     \<lparr> minDelay = 0, lastCallTime = 7000, pending = [], processing = False,
       reads = 6, parked = [], promises = [Fulfilled, Fulfilled, Fulfilled],
       calls = [(0, 5000), (1, 6000), (2, 7000)] \<rparr> \<and>
   map fst (calls (run scenario_clock (start (constructor (Some 0))) [Throttle, Throttle, Throttle])) =
     [0..<length (promises (run scenario_clock (start (constructor (Some 0))) [Throttle, Throttle, Throttle]))] \<and>
   \<not> processing (start (constructor (Some 1000))) \<and>
   pending (start (constructor (Some 1000))) = [] \<and>
   minDelay (start (constructor (Some 1000))) \<le>
     scenario_clock (reads (start (constructor (Some 1000)))) -
     lastCallTime (start (constructor (Some 1000))) \<and>
   throttle scenario_clock (start (constructor (Some 1000))) =
     \<lparr> minDelay = 1000, lastCallTime = 5000, pending = [], processing = False,
       reads = 2, parked = [], promises = [Fulfilled], calls = [(0, 5000)] \<rparr>"
proof -
  let ?s = "start (constructor (Some 1000))"
  have h: "0 \<le> scenario_clock 0" by (simp add: scenario_clock_def)
  have r: "run scenario_clock (start (constructor (Some 0))) [Throttle, Throttle, Throttle] =
     \<lparr> minDelay = 0, lastCallTime = 7000, pending = [], processing = False,
       reads = 6, parked = [], promises = [Fulfilled, Fulfilled, Fulfilled],
       calls = [(0, 5000), (1, 6000), (2, 7000)] \<rparr>"
    by (simp add: scenario_clock_def start_def constructor_def throttle_def
      processQueue_def drain.simps release_def resolve_promise_def Let_def)
  note Z = zero_delay_passthrough [OF scenario_monotonic h, of "[Throttle, Throttle, Throttle]"]
  have i: "\<not> processing ?s \<and> pending ?s = [] \<and>
     minDelay ?s \<le> scenario_clock (reads ?s) - lastCallTime ?s"
    by (simp add: start_def constructor_def scenario_clock_def)
  have "throttle scenario_clock ?s =
     ?s\<lparr> lastCallTime := scenario_clock (Suc (reads ?s)),
        reads := Suc (Suc (reads ?s)),
        promises := promises ?s @ [Fulfilled],
        calls := calls ?s @ [(length (promises ?s), scenario_clock (Suc (reads ?s)))] \<rparr>"
    using Z i by blast
  then have t: "throttle scenario_clock ?s =
     \<lparr> minDelay = 1000, lastCallTime = 5000, pending = [], processing = False,
       reads = 2, parked = [], promises = [Fulfilled], calls = [(0, 5000)] \<rparr>"
    by (simp add: start_def constructor_def scenario_clock_def)
  have o: "map fst (calls (run scenario_clock (start (constructor (Some 0))) [Throttle, Throttle, Throttle])) =
     [0..<length (promises (run scenario_clock (start (constructor (Some 0))) [Throttle, Throttle, Throttle]))]"
    using Z by blast
  show ?thesis
    by (intro conjI scenario_monotonic h r o t i [THEN conjunct1] i [THEN conjunct2, THEN conjunct1]
        i [THEN conjunct2, THEN conjunct2])
qed

section \<open>Properties of the tool handler\<close>

lemma show_nat_500: "show_nat 500 = ''500''"
  by (simp add: show_nat.simps digit_def)

text \<open>
  C9. Downstream errors. A response with status 429 is returned as an error result with
  the rate-limit text; any other response outside 200-299 as an error result whose text
  carries the status and the body (the status text when the body cannot be read); a
  rejected \<open>fetch\<close> as an error result with the failure's message. Whatever \<open>fetch\<close> gave
  back, the limiter's state is what it was: \<open>lastCallTime\<close> and \<open>minDelay\<close> are
  unchanged and nothing is queued again.
\<close>

theorem downstream_errors:
  "(status r = 429 \<longrightarrow>
      after_admission (Responds r) w =
        (\<lparr> content_text = ''Rate Limit reached! The Brave API currently does not allow any more requests. Please wait a moment and try again.'',
           isError = True \<rparr>, w)) \<and>
   (\<not> ok r \<and> status r \<noteq> 429 \<longrightarrow>
      after_admission (Responds r) w =
        (\<lparr> content_text = ''Search error: Brave API Error: '' @ show_nat (status r) @ '' - '' @
             (case body_text r of None \<Rightarrow> statusText r | Some t \<Rightarrow> t),
           isError = True \<rparr>, w)) \<and>
   after_admission (Rejects msg) w =
     (\<lparr> content_text = ''Search error: '' @ msg, isError = True \<rparr>, w) \<and>
   snd (after_admission f w) = w"
  by (simp add: after_admission_def try_body_def catch_block_def ok_def Let_def)

theorem downstream_errors_witness:
  "status \<lparr> status = 429, statusText = ''Too Many Requests'', body_text = Some ''slow down'',
            body_json = Inl ''Unexpected token'' \<rparr> = 429 \<and>
   after_admission (Responds \<lparr> status = 429, statusText = ''Too Many Requests'',
       body_text = Some ''slow down'', body_json = Inl ''Unexpected token'' \<rparr>) rateLimiter =
     (\<lparr> content_text = ''Rate Limit reached! The Brave API currently does not allow any more requests. Please wait a moment and try again.'',
        isError = True \<rparr>, rateLimiter) \<and>
   \<not> ok \<lparr> status = 500, statusText = ''Internal Server Error'', body_text = Some ''boom'',
          body_json = Inl ''Unexpected token'' \<rparr> \<and>
   after_admission (Responds \<lparr> status = 500, statusText = ''Internal Server Error'',
       body_text = Some ''boom'', body_json = Inl ''Unexpected token'' \<rparr>) rateLimiter =
     (\<lparr> content_text = ''Search error: Brave API Error: 500 - boom'', isError = True \<rparr>,
      rateLimiter)"
proof -
  let ?a = "\<lparr> status = 429, statusText = ''Too Many Requests'', body_text = Some ''slow down'',
            body_json = Inl ''Unexpected token'' \<rparr>"
  let ?b = "\<lparr> status = 500, statusText = ''Internal Server Error'', body_text = Some ''boom'',
          body_json = Inl ''Unexpected token'' \<rparr>"
  have a: "status ?a = 429" by simp
  have b: "\<not> ok ?b \<and> status ?b \<noteq> 429" by (simp add: ok_def)
  have "after_admission (Responds ?a) rateLimiter =
     (\<lparr> content_text = ''Rate Limit reached! The Brave API currently does not allow any more requests. Please wait a moment and try again.'',
        isError = True \<rparr>, rateLimiter)"
    using downstream_errors [of ?a rateLimiter] a by blast
  moreover have "after_admission (Responds ?b) rateLimiter =
     (\<lparr> content_text = ''Search error: Brave API Error: '' @ show_nat (status ?b) @ '' - '' @
             (case body_text ?b of None \<Rightarrow> statusText ?b | Some t \<Rightarrow> t),
           isError = True \<rparr>, rateLimiter)"
    using downstream_errors [of ?b rateLimiter] b by blast
  ultimately show ?thesis using a b by (simp add: show_nat_500)
qed

lemma call_tool_unknown:
  "name req \<noteq> ''brave_search'' \<Longrightarrow>
   call_tool clk req w = (Threw (Error (''Unknown tool: '' @ name req)), w)"
  by (simp add: call_tool_def)

lemma call_tool_no_arguments:
  "name req = ''brave_search'' \<Longrightarrow> arguments req = None \<Longrightarrow>
   call_tool clk req w = (Threw TypeError, w)"
  by (simp add: call_tool_def)

lemma call_tool_search:
  "name req = ''brave_search'' \<Longrightarrow> arguments req = Some (query, count) \<Longrightarrow>
   call_tool clk req w =
     (Awaits (length (promises w)) query (case count of None \<Rightarrow> 10 | Some c \<Rightarrow> c),
      throttle clk w)"
  by (simp add: call_tool_def)

lemma call_tool_cases:
  obtains (unknown) "name req \<noteq> ''brave_search''"
      and "call_tool clk req w = (Threw (Error (''Unknown tool: '' @ name req)), w)"
  | (no_arguments) "name req = ''brave_search''"
      and "call_tool clk req w = (Threw TypeError, w)"
  | (search) query count where "name req = ''brave_search''"
      and "call_tool clk req w =
        (Awaits (length (promises w)) query (case count of None \<Rightarrow> 10 | Some c \<Rightarrow> c),
         throttle clk w)"
proof (cases "name req = ''brave_search''")
  case False
  then show ?thesis using unknown call_tool_unknown by blast
next
  case True
  show ?thesis
  proof (cases "arguments req")
    case None
    then show ?thesis using True no_arguments call_tool_no_arguments by blast
  next
    case (Some a)
    obtain query count where "a = (query, count)" by (cases a)
    then show ?thesis using True Some search call_tool_search by blast
  qed
qed

lemma call_tool_shaped: "shaped w \<Longrightarrow> shaped (snd (call_tool clk req w))"
  by (cases rule: call_tool_cases [where req = req and clk = clk and w = w]) (simp_all add: throttle_shaped)

lemma server_step_shaped: "shaped w \<Longrightarrow> shaped (server_step clk w e)"
  by (cases e) (simp_all add: call_tool_shaped timer_fired_shaped)

lemma server_run_shaped: "shaped w \<Longrightarrow> shaped (server_run clk w es)"
  by (induction es arbitrary: w) (simp_all add: server_step_shaped)

lemma server_reach_shaped: "shaped (server_run clk rateLimiter es)"
  by (rule server_run_shaped) (simp add: rateLimiter_def start_shaped)

lemma admitted_fetch_released:
  assumes "shaped w" and "admitted_fetch w (Awaits p query count) \<noteq> None"
  shows "p \<in> fst ` set (calls w)"
proof -
  have p: "p < length (promises w)" and f: "promises w ! p = Fulfilled"
    using assms(2) by (simp_all add: admitted_fetch_def split: if_splits)
  have "p < length (calls w)"
    using shaped_promise [OF assms(1) p] f by (simp split: if_splits)
  then have "p \<in> set [0..<length (calls w)]" by simp
  then have "p \<in> set (map fst (calls w))" by (simp only: shaped_order [OF assms(1), symmetric])
  then show ?thesis by simp
qed

text \<open>
  C10. Unknown tools bypass the limiter. A request for any tool but \<open>brave_search\<close> is
  rejected with \<open>Unknown tool: <name>\<close> and the limiter is as it was: nothing queued, no
  promise created, \<open>lastCallTime\<close> unchanged. A \<open>brave_search\<close> request with arguments
  calls \<open>throttle\<close> and waits on the promise it returns. And whenever a handler call
  made in a state the server can reach has gone on to its fetch, the request was for
  \<open>brave_search\<close> and the drain loop has called the \<open>resolve\<close> of the promise the call
  waits on.
\<close>

theorem unknown_tool_bypasses_limiter:
  "(name req \<noteq> ''brave_search'' \<longrightarrow>
      call_tool clk req w = (Threw (Error (''Unknown tool: '' @ name req)), w)) \<and>
   (name req = ''brave_search'' \<and> arguments req = Some (query, count) \<longrightarrow>
      call_tool clk req w =
        (Awaits (length (promises w)) query (case count of None \<Rightarrow> 10 | Some c \<Rightarrow> c),
         throttle clk w)) \<and>
   (admitted_fetch
      (server_run clk (snd (call_tool clk req (server_run clk rateLimiter es))) es')
      (fst (call_tool clk req (server_run clk rateLimiter es))) \<noteq> None \<longrightarrow>
      name req = ''brave_search'' \<and>
      length (promises (server_run clk rateLimiter es)) \<in>
        fst ` set (calls
          (server_run clk (snd (call_tool clk req (server_run clk rateLimiter es))) es')))"
proof -
  let ?w = "server_run clk rateLimiter es"
  let ?h = "fst (call_tool clk req ?w)"
  let ?v = "server_run clk (snd (call_tool clk req ?w)) es'"
  have sv: "shaped ?v"
    by (intro server_run_shaped call_tool_shaped server_reach_shaped)
  have "name req = ''brave_search'' \<and> length (promises ?w) \<in> fst ` set (calls ?v)"
    if a: "admitted_fetch ?v ?h \<noteq> None"
  proof (cases rule: call_tool_cases [where req = req and clk = clk and w = ?w])
    case unknown
    then show ?thesis using a by (simp add: admitted_fetch_def)
  next
    case no_arguments
    then show ?thesis using a by (simp add: admitted_fetch_def)
  next
    case (search q c)
    have "length (promises ?w) \<in> fst ` set (calls ?v)"
      using sv a unfolding search(2) fst_conv by (rule admitted_fetch_released)
    then show ?thesis using search(1) by simp
  qed
  then show ?thesis
    using call_tool_unknown [of req clk w] call_tool_search [of req query count clk w]
    by blast
qed

theorem unknown_tool_bypasses_limiter_witness:
  "name \<lparr> name = ''web_fetch'', arguments = None \<rparr> \<noteq> ''brave_search'' \<and>
   call_tool scenario_clock \<lparr> name = ''web_fetch'', arguments = None \<rparr> rateLimiter =
     (Threw (Error ''Unknown tool: web_fetch''), rateLimiter) \<and>
   call_tool scenario_clock \<lparr> name = ''brave_search'', arguments = Some (''isabelle'', None) \<rparr>
       rateLimiter =
     (Awaits 0 ''isabelle'' 10, throttle scenario_clock rateLimiter) \<and>
   admitted_fetch (throttle scenario_clock rateLimiter) (Awaits 0 ''isabelle'' 10) =
     Some \<lparr> q_param = ''isabelle'', count_param = ''10'' \<rparr> \<and>
   0 \<in> fst ` set (calls (throttle scenario_clock rateLimiter))"
proof -
  let ?u = "\<lparr> name = ''web_fetch'', arguments = None \<rparr>"
  let ?b = "\<lparr> name = ''brave_search'', arguments = Some (''isabelle'', None) \<rparr>"
  note U = unknown_tool_bypasses_limiter [where req = ?u and clk = scenario_clock
      and w = rateLimiter and query = "''isabelle''" and count = None and es = "[]" and es' = "[]"]
  note B = unknown_tool_bypasses_limiter [where req = ?b and clk = scenario_clock
      and w = rateLimiter and query = "''isabelle''" and count = None and es = "[]" and es' = "[]"]
  have u: "name ?u \<noteq> ''brave_search''" by simp
  have b: "name ?b = ''brave_search'' \<and> arguments ?b = Some (''isabelle'', None)" by simp
  have p: "length (promises rateLimiter) = 0"
    by (simp add: rateLimiter_def start_def)
  have t: "throttle scenario_clock rateLimiter =
     \<lparr> minDelay = 1500, lastCallTime = 5000, pending = [], processing = False,
       reads = 2, parked = [], promises = [Fulfilled], calls = [(0, 5000)] \<rparr>"
    by (simp add: rateLimiter_def RATE_LIMIT_MS_def scenario_clock_def start_def constructor_def
        throttle_def processQueue_def drain.simps release_def resolve_promise_def Let_def)
  have cu: "call_tool scenario_clock ?u rateLimiter =
     (Threw (Error (''Unknown tool: '' @ name ?u)), rateLimiter)"
    by (rule U [THEN conjunct1, THEN mp, OF u])
  have cb: "call_tool scenario_clock ?b rateLimiter =
     (Awaits (length (promises rateLimiter)) ''isabelle'' (case None of None \<Rightarrow> 10 | Some c \<Rightarrow> c),
      throttle scenario_clock rateLimiter)"
    by (rule B [THEN conjunct2, THEN conjunct1, THEN mp, OF b])
  have cb': "call_tool scenario_clock ?b rateLimiter =
     (Awaits 0 ''isabelle'' 10, throttle scenario_clock rateLimiter)"
    unfolding cb p by simp
  have f: "admitted_fetch (throttle scenario_clock rateLimiter) (Awaits 0 ''isabelle'' 10) =
     Some \<lparr> q_param = ''isabelle'', count_param = ''10'' \<rparr>"
    unfolding t by (simp add: admitted_fetch_def show_nat.simps digit_def)
  have "admitted_fetch
      (server_run scenario_clock (snd (call_tool scenario_clock ?b (server_run scenario_clock rateLimiter []))) [])
      (fst (call_tool scenario_clock ?b (server_run scenario_clock rateLimiter []))) \<noteq> None"
    unfolding server_run.simps cb' fst_conv snd_conv f by simp
  from B [THEN conjunct2, THEN conjunct2, THEN mp, OF this]
  have "length (promises (server_run scenario_clock rateLimiter [])) \<in>
     fst ` set (calls (server_run scenario_clock
        (snd (call_tool scenario_clock ?b (server_run scenario_clock rateLimiter []))) []))"
    by (rule conjunct2)
  then have r: "0 \<in> fst ` set (calls (throttle scenario_clock rateLimiter))"
    unfolding server_run.simps cb' fst_conv snd_conv p .
  have cu': "call_tool scenario_clock ?u rateLimiter =
     (Threw (Error ''Unknown tool: web_fetch''), rateLimiter)"
    unfolding cu by simp
  show ?thesis
    by (intro conjI u cu' cb' f r)
qed

end
